theory Spec2Isabelle
  imports Main "HOL-Library.Word" "HOL-Library.Signed_Division" "HOL-Library.Sublist"
begin

section \<open>Data model of package sched (sched.go)\<close>

text \<open>
  A \<^verbatim>\<open>time.Duration\<close> is a signed 64-bit count of nanoseconds; the package only
  compares durations (signed \<^verbatim>\<open>>\<close>) and prints them.  A \<^verbatim>\<open>time.Time\<close> is
  represented by its instant, in nanoseconds since the zero time, so that
  \<^verbatim>\<open>t.IsZero()\<close> is \<open>t = 0\<close>.
\<close>

type_synonym duration = "64 word"
type_synonym time = int

definition IsZero :: "time \<Rightarrow> bool" where
  "IsZero t = (t = 0)"

record sample =
  start :: time
  oversleep :: duration
  bufSend :: duration
  pingPong :: duration
  chain :: duration

text \<open>The zero value \<^verbatim>\<open>sample{}\<close> of the struct.\<close>

definition zero_sample :: sample where
  "zero_sample = \<lparr>start = 0, oversleep = 0, bufSend = 0, pingPong = 0, chain = 0\<rparr>"

definition historySize :: int where
  "historySize = 100"

text \<open>
  The package-level variables: the four exported thresholds, the cursor \<^verbatim>\<open>nextIndex\<close>
  and the array \<^verbatim>\<open>samples [historySize]sample\<close> (a list; the array type fixes its
  length to 100, see \<open>wf\<close> below).
\<close>

record globals =
  OversleepThreshold :: duration
  ChanSendThreshold :: duration
  PingPongThreshold :: duration
  ChainThreshold :: duration
  nextIndex :: int
  samples :: "sample list"

text \<open>The state at package initialisation: 10us, 10us, 10us, 100us; cursor 0; all slots zero.\<close>

definition init_globals :: globals where
  "init_globals =
     \<lparr>OversleepThreshold = 10000, ChanSendThreshold = 10000,
      PingPongThreshold = 10000, ChainThreshold = 100000,
      nextIndex = 0, samples = replicate (nat historySize) zero_sample\<rparr>"

text \<open>The array type and the cursor's range: what every state the program reaches satisfies.\<close>

definition wf :: "globals \<Rightarrow> bool" where
  "wf g = (int (length (samples g)) = historySize \<and> 0 \<le> nextIndex g \<and> nextIndex g < historySize)"

datatype error = IndexOutOfRange

section \<open>overThreshold\<close>

text \<open>
  \<^verbatim>\<open>s.oversleep > OversleepThreshold || s.bufSend > ChanSendThreshold ||
  s.pingPong > PingPongThreshold || s.chain > ChainThreshold\<close>, on int64 values:
  \<open>a <s b\<close> is the signed comparison of two words.
\<close>

definition overThreshold :: "globals \<Rightarrow> sample \<Rightarrow> bool" where
  "overThreshold g s =
     (OversleepThreshold g <s oversleep s \<or>
      ChanSendThreshold g <s bufSend s \<or>
      PingPongThreshold g <s pingPong s \<or>
      ChainThreshold g <s chain s)"

section \<open>collectSample: the record operation\<close>

text \<open>
  The probes of \<^verbatim>\<open>collectSample\<close> read the clock and block on channels; what they
  measure is the argument \<open>s\<close>.  The rest is the code under the lock:
  \<^verbatim>\<open>idx := nextIndex; nextIndex = (nextIndex + 1) % historySize; samples[idx] = s\<close>.
  Go's \<^verbatim>\<open>%\<close> truncates towards zero (\<open>smod\<close>); an index outside the array panics.
\<close>

definition collectSample :: "sample \<Rightarrow> globals \<Rightarrow> error + (sample \<times> globals)" where
  "collectSample s g =
     (let idx = nextIndex g;
          g1 = g\<lparr>nextIndex := (nextIndex g + 1) smod historySize\<rparr>
      in if 0 \<le> idx \<and> idx < int (length (samples g1))
         then Inr (s, g1\<lparr>samples := (samples g1)[nat idx := s]\<rparr>)
         else Inl IndexOutOfRange)"

text \<open>Recording a sequence of samples, one \<^verbatim>\<open>collectSample\<close> after the other.\<close>

fun record_all :: "sample list \<Rightarrow> globals \<Rightarrow> error + globals" where
  "record_all [] g = Inr g"
| "record_all (s # ss) g =
     (case collectSample s g of Inl e \<Rightarrow> Inl e | Inr (_, g') \<Rightarrow> record_all ss g')"

section \<open>Samples: rendering the table\<close>

text \<open>
  The verbs of \<^verbatim>\<open>fmt\<close> are library code: \<open>fmtAge F now t\<close> stands for
  \<^verbatim>\<open>%5.1f\<close> applied to \<^verbatim>\<open>now.Sub(t).Seconds()\<close> and \<open>fmtDur F d\<close> for \<^verbatim>\<open>%10v\<close>
  applied to the duration \<open>d\<close>.
\<close>

record formatting =
  fmtAge :: "time \<Rightarrow> time \<Rightarrow> string"
  fmtDur :: "duration \<Rightarrow> string"

definition newline :: string where
  "newline = [CHR 0x0A]"

definition marker :: string where
  "marker = '' <---''"

definition header :: string where
  "header = ''| '' @ ''Sampled at | '' @ ''Oversleep  | '' @ ''Chan send  | '' @
            ''Ping-pong  | '' @ ''Chain      |''"

text \<open>One \<^verbatim>\<open>Fprintf\<close> of the loop body, with \<^verbatim>\<open>hl\<close> computed just before it.\<close>

definition row :: "formatting \<Rightarrow> globals \<Rightarrow> time \<Rightarrow> sample \<Rightarrow> string" where
  "row F g now s =
     (let hl = (if overThreshold g s then marker else '''')
      in ''| '' @ fmtAge F now (start s) @ ''s ago | '' @ fmtDur F (oversleep s) @
         '' | '' @ fmtDur F (bufSend s) @ '' | '' @ fmtDur F (pingPong s) @
         '' | '' @ fmtDur F (chain s) @ '' |'' @ hl @ newline)"

text \<open>\<^verbatim>\<open>samples[idx]\<close>: an index outside the array panics.\<close>

definition slot :: "sample list \<Rightarrow> int \<Rightarrow> error + sample" where
  "slot xs i = (if 0 \<le> i \<and> i < int (length xs) then Inr (xs ! nat i) else Inl IndexOutOfRange)"

text \<open>
  The loop \<^verbatim>\<open>for n := 0; n < historySize; n++\<close> of \<^verbatim>\<open>Samples\<close>.  The buffer
  \<open>buf\<close> is the sequence of writes made so far, one string for each \<^verbatim>\<open>Fprint\<close> call;
  \<^verbatim>\<open>buf.String()\<close> is their concatenation.
\<close>

function SamplesLoop ::
  "formatting \<Rightarrow> globals \<Rightarrow> time \<Rightarrow> int \<Rightarrow> int \<Rightarrow> string list \<Rightarrow> error + string list" where
  "SamplesLoop F g now n idx buf =
     (if n < historySize then
        (let idx1 = idx - 1;
             idx2 = (if idx1 < 0 then historySize - 1 else idx1)
         in case slot (samples g) idx2 of
              Inl e \<Rightarrow> Inl e
            | Inr s \<Rightarrow>
                if IsZero (start s) then Inr buf
                else SamplesLoop F g now (n + 1) idx2 (buf @ [row F g now s]))
      else Inr buf)"
  by pat_completeness auto
termination
  by (relation "measure (\<lambda>(F, g, now, n, idx, buf). nat (historySize - n))") auto

declare SamplesLoop.simps [simp del]

text \<open>The writes of \<^verbatim>\<open>Samples()\<close>: the header line, then the rows; \<open>now\<close> is the clock reading.\<close>

definition SamplesBuf :: "formatting \<Rightarrow> globals \<Rightarrow> time \<Rightarrow> error + string list" where
  "SamplesBuf F g now = SamplesLoop F g now 0 (nextIndex g) [header @ newline]"

definition Samples :: "formatting \<Rightarrow> globals \<Rightarrow> time \<Rightarrow> error + string" where
  "Samples F g now = (case SamplesBuf F g now of Inl e \<Rightarrow> Inl e | Inr buf \<Rightarrow> Inr (concat buf))"

text \<open>A row carries the over-threshold marker when it ends with it, before the line break.\<close>

definition marked :: "string \<Rightarrow> bool" where
  "marked r = suffix (marker @ newline) r"

section \<open>collectSampleLoop: ticks and checks\<close>

text \<open>
  The loop's own state is the local variable \<^verbatim>\<open>bad\<close>; it works on the package
  variables.  Its two events are a tick (with what the probes measured) and a \<^verbatim>\<open>Check\<close>
  (with the caller's Warner and the clock reading \<^verbatim>\<open>Samples\<close> takes).  The thresholds are
  exported variables that other code may assign at any time: \<open>SetThresholds\<close>.
\<close>

record loop =
  glob :: globals
  bad :: bool

datatype 'w event =
    Tick sample
  | CheckEv 'w time
  | SetThresholds duration duration duration duration

definition init_loop :: loop where
  "init_loop = \<lparr>glob = init_globals, bad = False\<rparr>"

text \<open>\<^verbatim>\<open>"Recent sample exceeded threshold.\nLast %v samples:\n%s"\<close> with \<^verbatim>\<open>historySize\<close> and the table.\<close>

definition warning_text :: "string \<Rightarrow> string" where
  "warning_text table =
     ''Recent sample exceeded threshold.'' @ newline @ ''Last 100 samples:'' @ newline @ table"

text \<open>One iteration of the \<^verbatim>\<open>select\<close>; the result carries the calls of \<^verbatim>\<open>Warningf\<close> made.\<close>

fun step :: "formatting \<Rightarrow> loop \<Rightarrow> 'w event \<Rightarrow> error + (loop \<times> ('w \<times> string) list)" where
  "step F L (Tick m) =
     (case collectSample m (glob L) of
        Inl e \<Rightarrow> Inl e
      | Inr (s, g') \<Rightarrow>
          Inr (\<lparr>glob = g', bad = (if overThreshold g' s then True else bad L)\<rparr>, []))"
| "step F L (CheckEv w now) =
     (if bad L then
        (case Samples F (glob L) now of
           Inl e \<Rightarrow> Inl e
         | Inr table \<Rightarrow> Inr (L\<lparr>bad := False\<rparr>, [(w, warning_text table)]))
      else Inr (L, []))"
| "step F L (SetThresholds a b c d) =
     Inr (L\<lparr>glob := (glob L)\<lparr>OversleepThreshold := a, ChanSendThreshold := b,
                              PingPongThreshold := c, ChainThreshold := d\<rparr>\<rparr>, [])"

text \<open>A run of the loop over a sequence of events, collecting the warnings delivered.\<close>

fun run :: "formatting \<Rightarrow> loop \<Rightarrow> 'w event list \<Rightarrow> error + (loop \<times> ('w \<times> string) list)" where
  "run F L [] = Inr (L, [])"
| "run F L (e # es) =
     (case step F L e of
        Inl x \<Rightarrow> Inl x
      | Inr (L', out) \<Rightarrow>
          (case run F L' es of
             Inl x \<Rightarrow> Inl x
           | Inr (L'', out') \<Rightarrow> Inr (L'', out @ out')))"

section \<open>Specification-side notions\<close>

text \<open>
  The slots of the buffer in the order of a backward walk that starts just before index
  \<open>idx\<close> and wraps around: \<open>k\<close> slots of it, and the whole walk from the cursor.
\<close>

definition walk_from :: "globals \<Rightarrow> int \<Rightarrow> nat \<Rightarrow> sample list" where
  "walk_from g idx k =
     map (\<lambda>j. samples g ! nat ((idx - 1 - int j) mod historySize)) [0..<k]"

definition walk :: "globals \<Rightarrow> sample list" where
  "walk g = walk_from g (nextIndex g) (nat historySize)"

text \<open>The package variables with the four thresholds assigned.\<close>

definition with_thresholds ::
  "globals \<Rightarrow> duration \<Rightarrow> duration \<Rightarrow> duration \<Rightarrow> duration \<Rightarrow> globals" where
  "with_thresholds g a b c d =
     g\<lparr>OversleepThreshold := a, ChanSendThreshold := b,
       PingPongThreshold := c, ChainThreshold := d\<rparr>"

text \<open>Two states of the package variables with the same four thresholds.\<close>

definition same_thresholds :: "globals \<Rightarrow> globals \<Rightarrow> bool" where
  "same_thresholds g g' \<longleftrightarrow>
     OversleepThreshold g = OversleepThreshold g' \<and> ChanSendThreshold g = ChanSendThreshold g' \<and>
     PingPongThreshold g = PingPongThreshold g' \<and> ChainThreshold g = ChainThreshold g'"

text \<open>
  The bad flag as the specification words it: every event of a trace is paired with
  whether it is a sample that exceeded a threshold when it was recorded (under the
  thresholds in force then); the flag says that the events after the last Check (all of
  them, if there was none) hold such a sample.
\<close>

fun is_check :: "'w event \<Rightarrow> bool" where
  "is_check (CheckEv w now) = True"
| "is_check _ = False"

fun is_tick :: "'w event \<Rightarrow> bool" where
  "is_tick (Tick s) = True"
| "is_tick _ = False"

fun set_thresholds :: "globals \<Rightarrow> 'w event \<Rightarrow> globals" where
  "set_thresholds g (SetThresholds a b c d) = with_thresholds g a b c d"
| "set_thresholds g _ = g"

fun over_when_recorded :: "globals \<Rightarrow> 'w event \<Rightarrow> bool" where
  "over_when_recorded g (Tick s) = overThreshold g s"
| "over_when_recorded g _ = False"

fun judged :: "globals \<Rightarrow> 'w event list \<Rightarrow> ('w event \<times> bool) list" where
  "judged g [] = []"
| "judged g (e # es) = (e, over_when_recorded g e) # judged (set_thresholds g e) es"

definition since_last_check :: "('w event \<times> bool) list \<Rightarrow> ('w event \<times> bool) list" where
  "since_last_check xs = rev (takeWhile (\<lambda>x. \<not> is_check (fst x)) (rev xs))"

definition bad_spec :: "globals \<Rightarrow> 'w event list \<Rightarrow> bool" where
  "bad_spec g evs = list_ex snd (since_last_check (judged g evs))"

text \<open>Concrete inputs for the examples: a formatting, and two samples taken at instants 5 and 7.\<close>

definition plain_formatting :: formatting where
  "plain_formatting = \<lparr>fmtAge = (\<lambda>now t. ''  1.0''), fmtDur = (\<lambda>d. ''       1ms'')\<rparr>"

definition slow_sample :: sample where
  "slow_sample = \<lparr>start = 5, oversleep = 20000, bufSend = 1, pingPong = 1, chain = 1\<rparr>"

definition quick_sample :: sample where
  "quick_sample = \<lparr>start = 7, oversleep = 10000, bufSend = 10000, pingPong = 10000, chain = 100000\<rparr>"

text \<open>The package variables after the first tick measured \<open>slow_sample\<close>, and after it measured \<open>quick_sample\<close>.\<close>

definition one_slow :: globals where
  "one_slow = init_globals\<lparr>nextIndex := 1, samples := (samples init_globals)[0 := slow_sample]\<rparr>"

definition one_quick :: globals where
  "one_quick = init_globals\<lparr>nextIndex := 1, samples := (samples init_globals)[0 := quick_sample]\<rparr>"

text \<open>A sequence of \<open>n\<close> samples taken at the instants 1, 2, ..., \<open>n\<close>.\<close>

definition numbered_samples :: "nat \<Rightarrow> sample list" where
  "numbered_samples n =
     map (\<lambda>i. \<lparr>start = int i + 1, oversleep = 1, bufSend = 1, pingPong = 1, chain = 1\<rparr>) [0..<n]"

section \<open>Auxiliary facts\<close>

lemma wf_init_globals: "wf init_globals"
  by (simp add: wf_def init_globals_def historySize_def)

subsection \<open>The rendering loop walks the buffer backward\<close>

lemma upt_step:
  assumes "n < historySize" "0 \<le> n"
  shows "[0..<nat (historySize - n)] = 0 # map Suc [0..<nat (historySize - (n+1))]"
proof -
  have "nat (historySize - n) = Suc (nat (historySize - (n + 1)))"
    using assms by linarith
  then show ?thesis
    by (simp add: upt_conv_Cons map_Suc_upt del: upt_Suc)
qed

lemma idx_step:
  assumes "0 \<le> idx" "idx < historySize"
  shows "(if idx - 1 < 0 then historySize - 1 else idx - 1) = (idx - 1) mod historySize"
proof (cases "idx = 0")
  case True
  then show ?thesis by (simp add: historySize_def)
next
  case False
  with assms show ?thesis by (simp add: historySize_def)
qed

lemma shift_mod:
  "((idx - 1) mod historySize - 1 - int j) mod historySize = (idx - 1 - int (Suc j)) mod historySize"
proof -
  have "((idx - 1) mod historySize - 1 - int j) mod historySize
        = ((idx - 1) mod historySize - (1 + int j)) mod historySize"
    by (simp add: algebra_simps)
  also have "\<dots> = ((idx - 1) - (1 + int j)) mod historySize"
    by (simp only: mod_diff_left_eq)
  finally show ?thesis
    by (simp add: algebra_simps)
qed




lemma SamplesLoop_done:
  "\<not> n < historySize \<Longrightarrow> SamplesLoop F g now n idx buf = Inr buf"
  by (subst SamplesLoop.simps) simp

lemma SamplesLoop_step:
  assumes "n < historySize" "0 \<le> idx" "idx < historySize" "int (length (samples g)) = historySize"
  shows "SamplesLoop F g now n idx buf =
     (if IsZero (start (samples g ! nat ((idx - 1) mod historySize))) then Inr buf
      else SamplesLoop F g now (n + 1) ((idx - 1) mod historySize)
             (buf @ [row F g now (samples g ! nat ((idx - 1) mod historySize))]))"
proof -
  have r: "0 \<le> (idx - 1) mod historySize" "(idx - 1) mod historySize < historySize"
    by (simp_all add: historySize_def)
  have sl: "slot (samples g) ((idx - 1) mod historySize) = Inr (samples g ! nat ((idx - 1) mod historySize))"
    using r assms(4) by (simp add: slot_def)
  show ?thesis
    apply (subst SamplesLoop.simps)
    apply (simp only: Let_def idx_step[OF assms(2,3)] assms(1) if_True sl sum.case)
    done
qed

lemma walk_from_Suc:
  "walk_from g idx (Suc k) =
     samples g ! nat ((idx - 1) mod historySize) # walk_from g ((idx - 1) mod historySize) k"
proof -
  have "[0..<Suc k] = 0 # map Suc [0..<k]"
    by (simp add: upt_conv_Cons map_Suc_upt del: upt_Suc)
  then show ?thesis
    by (simp add: walk_from_def comp_def shift_mod del: upt_Suc)
qed

lemma SamplesLoop_walk:
  assumes "int (length (samples g)) = historySize"
  shows "0 \<le> idx \<Longrightarrow> idx < historySize \<Longrightarrow> 0 \<le> n \<Longrightarrow> n \<le> historySize \<Longrightarrow> k = nat (historySize - n) \<Longrightarrow>
     SamplesLoop F g now n idx buf =
       Inr (buf @ map (row F g now) (takeWhile (\<lambda>s. \<not> IsZero (start s)) (walk_from g idx k)))"
proof (induction k arbitrary: n idx buf)
  case 0
  then have "\<not> n < historySize" by linarith
  then show ?case by (simp add: SamplesLoop_done walk_from_def)
next
  case (Suc k)
  then have lt: "n < historySize" by linarith
  have r: "0 \<le> (idx - 1) mod historySize" "(idx - 1) mod historySize < historySize"
    by (simp_all add: historySize_def)
  have k: "k = nat (historySize - (n + 1))" using Suc.prems by linarith
  have n1: "0 \<le> n + 1" "n + 1 \<le> historySize" using Suc.prems lt by linarith+
  note IH = Suc.IH[OF r n1 k]
  show ?case
    by (simp add: SamplesLoop_step[OF lt Suc.prems(1,2) assms] walk_from_Suc IH)
qed




lemma length_walk: "length (walk g) = 100"
  by (simp add: walk_def walk_from_def historySize_def)

lemma walk_nth:
  "j < 100 \<Longrightarrow> walk g ! j = samples g ! nat ((nextIndex g - 1 - int j) mod 100)"
  by (simp add: walk_def walk_from_def historySize_def)

lemma collectSample_wf:
  assumes "wf g"
  shows "collectSample s g =
           Inr (s, g\<lparr>nextIndex := (nextIndex g + 1) mod historySize,
                    samples := (samples g)[nat (nextIndex g) := s]\<rparr>)"
  using assms
  by (simp add: collectSample_def wf_def Let_def signed_modulo_int_def sgn_if historySize_def)

lemma collectSample_preserves_wf:
  assumes "wf g" "collectSample s g = Inr (r, g')"
  shows "wf g'"
  using assms(2) assms(1) unfolding collectSample_wf[OF assms(1)]
  by (auto simp: wf_def historySize_def)

lemma walk_collectSample:
  assumes "wf g" "collectSample s g = Inr (r, g')"
  shows "walk g' = s # butlast (walk g)"
proof (rule nth_equalityI)
  show "length (walk g') = length (s # butlast (walk g))"
    by (simp add: length_walk)
next
  fix j assume "j < length (walk g')"
  then have j: "j < 100" by (simp add: length_walk)
  from assms have g': "g' = g\<lparr>nextIndex := (nextIndex g + 1) mod historySize,
                    samples := (samples g)[nat (nextIndex g) := s]\<rparr>"
    by (auto simp: collectSample_wf)
  have nI: "0 \<le> nextIndex g" "nextIndex g < 100" and len: "length (samples g) = 100"
    using assms(1) by (auto simp: wf_def historySize_def)
  have e: "((nextIndex g + 1) mod 100 - 1 - int j) mod 100 = (nextIndex g - int j) mod 100"
  proof -
    have "((nextIndex g + 1) mod 100 - 1 - int j) mod 100 = ((nextIndex g + 1) mod 100 - (1 + int j)) mod 100"
      by (simp add: algebra_simps)
    also have "\<dots> = ((nextIndex g + 1) - (1 + int j)) mod 100"
      by (simp only: mod_diff_left_eq)
    finally show ?thesis by (simp add: algebra_simps)
  qed
  show "walk g' ! j = (s # butlast (walk g)) ! j"
  proof (cases j)
    case 0
    have "((nextIndex g + 1) mod 100 - 1) mod 100 = (nextIndex g + 1 - 1) mod 100"
      by (simp only: mod_diff_left_eq)
    then have e0: "((nextIndex g + 1) mod 100 - 1) mod 100 = nextIndex g"
      using nI by simp
    show ?thesis using 0 nI len
      by (simp add: walk_nth g' historySize_def e0)
  next
    case (Suc i)
    then have i: "i < 99" using j by simp
    have ne: "nat ((nextIndex g - int j) mod 100) \<noteq> nat (nextIndex g)"
    proof -
      have "(nextIndex g - int j) mod 100 \<noteq> nextIndex g"
      proof (cases "int j \<le> nextIndex g")
        case True
        then have "(nextIndex g - int j) mod 100 = nextIndex g - int j"
          using nI by simp
        then show ?thesis using Suc by simp
      next
        case False
        have a: "(nextIndex g - int j + 100) mod 100 = nextIndex g - int j + 100"
          by (rule mod_pos_pos_trivial) (use False nI j in linarith)+
        have "(nextIndex g - int j + 100) mod 100 = (nextIndex g - int j) mod 100"
          by simp
        with a show ?thesis using j by simp
      qed
      moreover have "0 \<le> (nextIndex g - int j) mod 100" by simp
      ultimately show ?thesis using nI by (simp add: nat_eq_iff)
    qed
    have "walk g' ! j = samples g ! nat ((nextIndex g - int j) mod 100)"
      using j ne by (simp add: walk_nth g' historySize_def e)
    also have "\<dots> = walk g ! i"
      using i Suc by (simp add: walk_nth algebra_simps)
    also have "\<dots> = butlast (walk g) ! i"
      using i by (simp add: nth_butlast length_walk)
    finally show ?thesis using Suc by simp
  qed
qed



lemma take_append_take: "take n (xs @ take n ys) = take n (xs @ ys)"
  by (induction xs arbitrary: n) (auto simp: take_Cons split: nat.splits)

lemma record_all_walk:
  "wf g \<Longrightarrow> \<exists>g'. record_all ss g = Inr g' \<and> wf g' \<and> walk g' = take 100 (rev ss @ walk g)
      \<and> OversleepThreshold g' = OversleepThreshold g \<and> ChanSendThreshold g' = ChanSendThreshold g
      \<and> PingPongThreshold g' = PingPongThreshold g \<and> ChainThreshold g' = ChainThreshold g"
proof (induction ss arbitrary: g)
  case Nil
  then show ?case by (simp add: length_walk)
next
  case (Cons s ss)
  let ?g1 = "g\<lparr>nextIndex := (nextIndex g + 1) mod historySize,
                samples := (samples g)[nat (nextIndex g) := s]\<rparr>"
  have c: "collectSample s g = Inr (s, ?g1)" by (rule collectSample_wf[OF Cons.prems])
  have wf1: "wf ?g1" by (rule collectSample_preserves_wf[OF Cons.prems c])
  have w1: "walk ?g1 = s # butlast (walk g)" by (rule walk_collectSample[OF Cons.prems c])
  have bl: "s # butlast (walk g) = take 100 (s # walk g)"
    by (simp add: butlast_conv_take length_walk)
  from Cons.IH[OF wf1] obtain g' where g': "record_all ss ?g1 = Inr g'" "wf g'"
    "walk g' = take 100 (rev ss @ walk ?g1)"
    "OversleepThreshold g' = OversleepThreshold g" "ChanSendThreshold g' = ChanSendThreshold g"
    "PingPongThreshold g' = PingPongThreshold g" "ChainThreshold g' = ChainThreshold g"
    by auto
  have "walk g' = take 100 (rev ss @ take 100 (s # walk g))"
    by (simp only: g'(3) w1 bl)
  also have "\<dots> = take 100 (rev ss @ (s # walk g))"
    by (rule take_append_take)
  also have "\<dots> = take 100 (rev (s # ss) @ walk g)"
    by simp
  finally have "walk g' = take 100 (rev (s # ss) @ walk g)" .
  with g' c show ?case by simp
qed

lemma walk_init: "walk init_globals = replicate 100 zero_sample"
  by (rule nth_equalityI) (simp_all add: length_walk walk_nth init_globals_def historySize_def)

lemma SamplesBuf_walk:
  assumes "wf g"
  shows "SamplesBuf F g now =
     Inr ((header @ newline) # map (row F g now) (takeWhile (\<lambda>s. \<not> IsZero (start s)) (walk g)))"
proof -
  have "SamplesLoop F g now 0 (nextIndex g) [header @ newline] =
       Inr ([header @ newline] @ map (row F g now) (takeWhile (\<lambda>s. \<not> IsZero (start s)) (walk_from g (nextIndex g) (nat historySize))))"
    using assms by (intro SamplesLoop_walk) (simp_all add: wf_def historySize_def)
  then show ?thesis by (simp add: SamplesBuf_def walk_def)
qed

lemma set_walk:
  assumes "wf g"
  shows "set (walk g) = set (samples g)"
proof -
  have len: "length (samples g) = 100" using assms by (simp add: wf_def historySize_def)
  show ?thesis
  proof (intro equalityI subsetI)
    fix x assume "x \<in> set (walk g)"
    then obtain j where "j < 100" "x = walk g ! j"
      by (metis in_set_conv_nth length_walk)
    then have "x = samples g ! nat ((nextIndex g - 1 - int j) mod 100)" by (simp add: walk_nth)
    moreover have "nat ((nextIndex g - 1 - int j) mod 100) < 100" by simp
    ultimately show "x \<in> set (samples g)" using len by simp
  next
    fix x assume "x \<in> set (samples g)"
    then obtain i where i: "i < 100" "x = samples g ! i"
      using len by (metis in_set_conv_nth)
    define j where "j = nat ((nextIndex g - 1 - int i) mod 100)"
    have j: "j < 100" "int j = (nextIndex g - 1 - int i) mod 100" by (simp_all add: j_def)
    have "(nextIndex g - 1 - int j) mod 100 = (nextIndex g - 1 - (nextIndex g - 1 - int i)) mod 100"
      unfolding j(2) by (simp only: mod_diff_right_eq)
    also have "\<dots> = int i" using i by simp
    finally have "walk g ! j = x" using j i by (simp add: walk_nth)
    then show "x \<in> set (walk g)" using j by (metis in_set_conv_nth length_walk)
  qed
qed

lemma takeWhile_pad:
  "takeWhile (\<lambda>s. \<not> IsZero (start s)) (take 100 (xs @ replicate 100 zero_sample))
     = takeWhile (\<lambda>s. \<not> IsZero (start s)) (take 100 xs)"
proof (cases "100 \<le> length xs")
  case True
  then show ?thesis by simp
next
  case False
  then have "take 100 (xs @ replicate 100 zero_sample) = xs @ replicate (100 - length xs) zero_sample"
    by simp
  moreover have "replicate (100 - length xs) zero_sample = zero_sample # replicate (99 - length xs) zero_sample"
    using False by (cases "100 - length xs") auto
  ultimately have t: "take 100 (xs @ replicate 100 zero_sample)
      = xs @ zero_sample # replicate (99 - length xs) zero_sample"
    by simp
  have z: "IsZero (start zero_sample)" by (simp add: IsZero_def zero_sample_def)
  have "takeWhile (\<lambda>s. \<not> IsZero (start s)) (xs @ zero_sample # replicate (99 - length xs) zero_sample)
      = takeWhile (\<lambda>s. \<not> IsZero (start s)) xs"
  proof (cases "\<forall>x\<in>set xs. \<not> IsZero (start x)")
    case True
    then have tw: "takeWhile (\<lambda>s. \<not> IsZero (start s)) xs = xs" by simp
    show ?thesis using True z by (simp add: tw)
  next
    case False
    then show ?thesis by (auto simp: takeWhile_append1)
  qed
  then show ?thesis using False t by simp
qed

subsection \<open>Markers, and the loop over ticks and checks\<close>

lemma marked_row: "marked (row F g now s) \<longleftrightarrow> overThreshold g s"
proof (cases "overThreshold g s")
  case True
  then show ?thesis
    by (simp add: marked_def row_def suffix_def)
next
  case False
  then show ?thesis
    by (simp add: marked_def row_def suffix_to_prefix marker_def newline_def)
qed

lemma not_marked_header: "\<not> marked (header @ newline)"
  by (simp add: marked_def suffix_to_prefix marker_def newline_def header_def)

lemma Samples_wf:
  assumes "wf g"
  shows "Samples F g now =
     Inr (concat ((header @ newline) # map (row F g now) (takeWhile (\<lambda>s. \<not> IsZero (start s)) (walk g))))"
  by (simp add: Samples_def SamplesBuf_walk[OF assms])

lemma overThreshold_cong:
  assumes "OversleepThreshold g = OversleepThreshold g'" "ChanSendThreshold g = ChanSendThreshold g'"
    "PingPongThreshold g = PingPongThreshold g'" "ChainThreshold g = ChainThreshold g'"
  shows "overThreshold g s = overThreshold g' s"
  using assms by (simp add: overThreshold_def)

lemma judged_cong:
  "same_thresholds g g' \<Longrightarrow> judged g es = judged g' es"
proof (induction es arbitrary: g g')
  case Nil
  then show ?case by simp
next
  case (Cons e es)
  have o: "over_when_recorded g e = over_when_recorded g' e"
    using Cons.prems by (cases e) (simp_all add: same_thresholds_def overThreshold_def)
  have "same_thresholds (set_thresholds g e) (set_thresholds g' e)"
    using Cons.prems by (cases e) (simp_all add: same_thresholds_def with_thresholds_def)
  from Cons.IH[OF this] o show ?case by simp
qed

lemma map_fst_judged: "map fst (judged g es) = es"
  by (induction es arbitrary: g) simp_all

lemma no_check_judged:
  "(\<forall>x\<in>set (judged g es). \<not> is_check (fst x)) \<longleftrightarrow> (\<forall>e\<in>set es. \<not> is_check e)"
proof -
  have "set es = fst ` set (judged g es)"
    by (metis map_fst_judged set_map)
  then show ?thesis by auto
qed

lemma since_last_check_all:
  assumes "\<forall>x\<in>set xs. \<not> is_check (fst x)"
  shows "since_last_check xs = xs"
proof -
  have tw: "takeWhile (\<lambda>x. \<not> is_check (fst x)) (rev xs) = rev xs"
    using assms by simp
  show ?thesis unfolding since_last_check_def tw by simp
qed

lemma since_last_check_Cons:
  "since_last_check (x # xs) =
     (if \<forall>y\<in>set xs. \<not> is_check (fst y)
      then (if is_check (fst x) then xs else x # xs)
      else since_last_check xs)"
proof (cases "\<forall>y\<in>set xs. \<not> is_check (fst y)")
  case True
  then have tw: "takeWhile (\<lambda>x. \<not> is_check (fst x)) (rev xs @ [x])
        = rev xs @ takeWhile (\<lambda>x. \<not> is_check (fst x)) [x]"
    by (intro takeWhile_append2) simp
  have "since_last_check (x # xs) = rev (rev xs @ takeWhile (\<lambda>x. \<not> is_check (fst x)) [x])"
    unfolding since_last_check_def rev.simps tw ..
  then show ?thesis using True by simp
next
  case False
  then obtain y where "y \<in> set (rev xs)" "\<not> \<not> is_check (fst y)" by auto
  then have tw: "takeWhile (\<lambda>x. \<not> is_check (fst x)) (rev xs @ [x])
        = takeWhile (\<lambda>x. \<not> is_check (fst x)) (rev xs)"
    by (rule takeWhile_append1)
  have e: "since_last_check (x # xs) = since_last_check xs"
    unfolding since_last_check_def rev.simps tw ..
  from False show ?thesis unfolding e by (simp only: if_False)
qed

lemma bad_spec_no_check:
  "\<forall>x\<in>set es. \<not> is_check x \<Longrightarrow> bad_spec g es = list_ex snd (judged g es)"
  by (simp add: bad_spec_def since_last_check_all no_check_judged)

lemma bad_spec_Cons:
  "bad_spec g (e # es) =
     (if \<forall>x\<in>set es. \<not> is_check x
      then (\<not> is_check e \<and> over_when_recorded g e) \<or> list_ex snd (judged (set_thresholds g e) es)
      else bad_spec (set_thresholds g e) es)"
  by (simp add: bad_spec_def since_last_check_Cons no_check_judged)

lemma step_wf:
  assumes "wf (glob L)"
  shows "\<exists>L' out. step F L e = Inr (L', out) \<and> wf (glob L') \<and>
           same_thresholds (glob L') (set_thresholds (glob L) e) \<and>
           bad L' = (if is_check e then False else bad L \<or> over_when_recorded (glob L) e) \<and>
           out = (if is_check e \<and> bad L then out else []) \<and> length out \<le> 1"
proof (cases e)
  case (Tick m)
  let ?g1 = "(glob L)\<lparr>nextIndex := (nextIndex (glob L) + 1) mod historySize,
                samples := (samples (glob L))[nat (nextIndex (glob L)) := m]\<rparr>"
  have c: "collectSample m (glob L) = Inr (m, ?g1)" by (rule collectSample_wf[OF assms])
  have w: "wf ?g1" by (rule collectSample_preserves_wf[OF assms c])
  have o: "overThreshold ?g1 m = overThreshold (glob L) m"
    by (simp add: overThreshold_def)
  show ?thesis using Tick c w o
    by (auto simp: same_thresholds_def)
next
  case (CheckEv w now)
  then show ?thesis using assms
    by (auto simp: Samples_wf same_thresholds_def)
next
  case (SetThresholds a b c d)
  then show ?thesis using assms
    by (auto simp: wf_def same_thresholds_def with_thresholds_def)
qed

lemma run_bad:
  "wf (glob L) \<Longrightarrow>
     \<exists>L' out. run F L es = Inr (L', out) \<and> wf (glob L') \<and>
       (bad L' \<longleftrightarrow> bad_spec (glob L) es \<or> (bad L \<and> (\<forall>e\<in>set es. \<not> is_check e)))"
proof (induction es arbitrary: L)
  case Nil
  then show ?case by (simp add: bad_spec_def since_last_check_def)
next
  case (Cons e es)
  from step_wf[OF Cons.prems, of F e] obtain L1 out1 where
    s: "step F L e = Inr (L1, out1)" "wf (glob L1)"
       "same_thresholds (glob L1) (set_thresholds (glob L) e)"
       "bad L1 = (if is_check e then False else bad L \<or> over_when_recorded (glob L) e)"
    by blast
  from Cons.IH[OF s(2)] obtain L' out where
    r: "run F L1 es = Inr (L', out)" "wf (glob L')"
       "bad L' \<longleftrightarrow> bad_spec (glob L1) es \<or> (bad L1 \<and> (\<forall>e\<in>set es. \<not> is_check e))"
    by blast
  have j: "judged (glob L1) es = judged (set_thresholds (glob L) e) es"
    by (rule judged_cong[OF s(3)])
  then have b: "bad_spec (glob L1) es = bad_spec (set_thresholds (glob L) e) es"
    by (simp add: bad_spec_def)
  have "bad L' \<longleftrightarrow> bad_spec (glob L) (e # es) \<or> (bad L \<and> (\<forall>x\<in>set (e # es). \<not> is_check x))"
  proof (cases "\<forall>x\<in>set es. \<not> is_check x")
    case True
    then show ?thesis
      using r(3) s(4) b bad_spec_no_check[OF True, of "set_thresholds (glob L) e"]
      by (auto simp: bad_spec_Cons)
  next
    case False
    then show ?thesis
      using r(3) b by (auto simp: bad_spec_Cons)
  qed
  with s(1) r(1,2) show ?case by simp
qed

subsection \<open>Assigning thresholds; recording from the initial state\<close>

lemma wf_with_thresholds: "wf (with_thresholds g a b c d) = wf g"
  by (simp add: wf_def with_thresholds_def)

lemma walk_with_thresholds: "walk (with_thresholds g a b c d) = walk g"
  by (simp add: walk_def walk_from_def with_thresholds_def)

lemma overThreshold_with_thresholds:
  "overThreshold (with_thresholds g a b c d) s \<longleftrightarrow>
     a <s oversleep s \<or> b <s bufSend s \<or> c <s pingPong s \<or> d <s chain s"
  by (simp add: overThreshold_def with_thresholds_def)

lemma record_all_init_rendered:
  "\<exists>g. record_all ss (with_thresholds init_globals a b c d) = Inr g \<and> wf g \<and>
       walk g = take 100 (rev ss @ replicate 100 zero_sample) \<and>
       takeWhile (\<lambda>s. \<not> IsZero (start s)) (walk g)
         = takeWhile (\<lambda>s. \<not> IsZero (start s)) (take 100 (rev ss))"
proof -
  have w: "wf (with_thresholds init_globals a b c d)"
    by (simp add: wf_with_thresholds wf_init_globals)
  from record_all_walk[OF w, of ss] obtain g where
    g: "record_all ss (with_thresholds init_globals a b c d) = Inr g" "wf g"
       "walk g = take 100 (rev ss @ walk (with_thresholds init_globals a b c d))"
    by blast
  have wk: "walk g = take 100 (rev ss @ replicate 100 zero_sample)"
    by (simp only: g(3) walk_with_thresholds walk_init)
  have "takeWhile (\<lambda>s. \<not> IsZero (start s)) (walk g)
         = takeWhile (\<lambda>s. \<not> IsZero (start s)) (take 100 (rev ss))"
    unfolding wk by (rule takeWhile_pad)
  with g(1,2) wk show ?thesis by blast
qed

subsection \<open>The example states; the loop from its initial state\<close>

lemma wf_one_slow: "wf one_slow"
  by (simp add: wf_def one_slow_def init_globals_def historySize_def)

lemma wf_one_quick: "wf one_quick"
  by (simp add: wf_def one_quick_def init_globals_def historySize_def)

lemma rendered_subset:
  assumes "wf g"
  shows "set (takeWhile (\<lambda>s. \<not> IsZero (start s)) (walk g)) \<subseteq> set (samples g)"
  using set_takeWhileD set_walk[OF assms] by fastforce

lemma wf_init_loop: "wf (glob init_loop)"
  by (simp add: init_loop_def wf_init_globals)

lemma run_init:
  "\<exists>L out. run F init_loop es = Inr (L, out) \<and> wf (glob L) \<and>
     (bad L \<longleftrightarrow> bad_spec init_globals es)"
  using run_bad[OF wf_init_loop, of F es] by (simp add: init_loop_def)

lemma run_no_tick_quiet:
  "wf (glob L) \<Longrightarrow> \<not> bad L \<Longrightarrow> \<forall>e\<in>set es. \<not> is_tick e \<Longrightarrow>
     \<exists>L'. run F L es = Inr (L', []) \<and> wf (glob L') \<and> \<not> bad L'"
proof (induction es arbitrary: L)
  case Nil
  then show ?case by simp
next
  case (Cons e es)
  have "\<exists>L1. step F L e = Inr (L1, []) \<and> wf (glob L1) \<and> \<not> bad L1"
  proof (cases e)
    case (Tick m)
    with Cons.prems(3) show ?thesis by simp
  next
    case (CheckEv w now)
    with Cons.prems(1,2) show ?thesis by simp
  next
    case (SetThresholds a b c d)
    with Cons.prems(1,2) show ?thesis by (simp add: wf_def)
  qed
  then obtain L1 where s: "step F L e = Inr (L1, [])" "wf (glob L1)" "\<not> bad L1"
    by blast
  from Cons.IH[OF s(2,3)] Cons.prems(3) obtain L' where
    "run F L1 es = Inr (L', [])" "wf (glob L')" "\<not> bad L'"
    by auto
  with s(1) show ?case by simp
qed

subsection \<open>The buffer after the first tick\<close>

lemma collectSample_one_slow:
  "collectSample slow_sample init_globals = Inr (slow_sample, one_slow)"
  by code_simp

lemma collectSample_one_quick:
  "collectSample quick_sample init_globals = Inr (quick_sample, one_quick)"
  by code_simp

lemma rendered_after_first_record:
  assumes "collectSample s init_globals = Inr (s, g)" "\<not> IsZero (start s)"
  shows "takeWhile (\<lambda>s. \<not> IsZero (start s)) (walk g) = [s]"
proof -
  have "walk g = s # butlast (walk init_globals)"
    by (rule walk_collectSample[OF wf_init_globals assms(1)])
  also have "butlast (walk init_globals) = replicate 99 zero_sample"
    by (simp add: walk_init butlast_conv_take)
  finally have "walk g = s # replicate 99 zero_sample" .
  then show ?thesis
    using assms(2) by (simp add: takeWhile_replicate IsZero_def zero_sample_def)
qed

lemma rendered_one_slow:
  "takeWhile (\<lambda>s. \<not> IsZero (start s)) (walk one_slow) = [slow_sample]"
  by (rule rendered_after_first_record[OF collectSample_one_slow])
     (simp add: IsZero_def slow_sample_def)

lemma rendered_one_quick:
  "takeWhile (\<lambda>s. \<not> IsZero (start s)) (walk one_quick) = [quick_sample]"
  by (rule rendered_after_first_record[OF collectSample_one_quick])
     (simp add: IsZero_def quick_sample_def)

lemma overThreshold_one_slow: "overThreshold one_slow slow_sample"
  by (simp add: overThreshold_def one_slow_def init_globals_def slow_sample_def)

lemma not_overThreshold_one_quick: "\<not> overThreshold one_quick quick_sample"
  by (simp add: overThreshold_def one_quick_def init_globals_def quick_sample_def)

section \<open>The over-threshold test\<close>

text \<open>
  C4. A sample is judged over threshold exactly when its oversleep exceeds
  OversleepThreshold, or its bufSend exceeds ChanSendThreshold, or its pingPong exceeds
  PingPongThreshold, or its chain exceeds ChainThreshold, as signed 64-bit values: each
  field is compared with its own threshold only, and strictly, so a sample whose four
  fields equal the four thresholds is not over threshold.
\<close>

theorem overThreshold_strict_each_field:
  "(overThreshold g s \<longleftrightarrow>
      sint (OversleepThreshold g) < sint (oversleep s) \<or>
      sint (ChanSendThreshold g) < sint (bufSend s) \<or>
      sint (PingPongThreshold g) < sint (pingPong s) \<or>
      sint (ChainThreshold g) < sint (chain s)) \<and>
   (oversleep s = OversleepThreshold g \<and> bufSend s = ChanSendThreshold g \<and>
    pingPong s = PingPongThreshold g \<and> chain s = ChainThreshold g \<longrightarrow> \<not> overThreshold g s)"
  by (simp add: overThreshold_def word_sless_alt)

theorem overThreshold_strict_each_field_witness:
  "(oversleep quick_sample = OversleepThreshold init_globals \<and>
    bufSend quick_sample = ChanSendThreshold init_globals \<and>
    pingPong quick_sample = PingPongThreshold init_globals \<and>
    chain quick_sample = ChainThreshold init_globals) \<and>
   \<not> overThreshold init_globals quick_sample \<and>
   overThreshold init_globals slow_sample \<and>
   sint (OversleepThreshold init_globals) < sint (oversleep slow_sample)"
  using overThreshold_strict_each_field [of init_globals quick_sample]
        overThreshold_strict_each_field [of init_globals slow_sample]
  by (simp add: quick_sample_def slow_sample_def init_globals_def)

section \<open>The record operation\<close>

text \<open>
  C8. In every state of the buffer (100 slots, cursor in range) and for every sample,
  collectSample returns without a panic, has written the sample into the slot at the
  cursor, has left every other slot and the thresholds as they were, and has advanced
  the cursor by one modulo 100, so that the cursor is in [0, 100) again; hence after
  any sequence of records from the initial state the cursor is in [0, 100).
\<close>


theorem collectSample_records:
  "(wf g \<longrightarrow>
     (\<exists>g'. collectSample s g = Inr (s, g') \<and>
        samples g' ! nat (nextIndex g) = s \<and>
        (\<forall>i. i \<noteq> nat (nextIndex g) \<longrightarrow> samples g' ! i = samples g ! i) \<and>
        length (samples g') = length (samples g) \<and>
        nextIndex g' = (nextIndex g + 1) mod 100 \<and>
        same_thresholds g' g \<and>
        0 \<le> nextIndex g' \<and> nextIndex g' < 100)) \<and>
   (\<exists>g''. record_all ss init_globals = Inr g'' \<and> 0 \<le> nextIndex g'' \<and> nextIndex g'' < 100)"
proof
  show "wf g \<longrightarrow>
     (\<exists>g'. collectSample s g = Inr (s, g') \<and>
        samples g' ! nat (nextIndex g) = s \<and>
        (\<forall>i. i \<noteq> nat (nextIndex g) \<longrightarrow> samples g' ! i = samples g ! i) \<and>
        length (samples g') = length (samples g) \<and>
        nextIndex g' = (nextIndex g + 1) mod 100 \<and>
        same_thresholds g' g \<and>
        0 \<le> nextIndex g' \<and> nextIndex g' < 100)"
  proof
    assume w: "wf g"
    then have "nat (nextIndex g) < length (samples g)"
      unfolding wf_def historySize_def by linarith
    then show "\<exists>g'. collectSample s g = Inr (s, g') \<and>
        samples g' ! nat (nextIndex g) = s \<and>
        (\<forall>i. i \<noteq> nat (nextIndex g) \<longrightarrow> samples g' ! i = samples g ! i) \<and>
        length (samples g') = length (samples g) \<and>
        nextIndex g' = (nextIndex g + 1) mod 100 \<and>
        same_thresholds g' g \<and>
        0 \<le> nextIndex g' \<and> nextIndex g' < 100"
      by (simp add: collectSample_wf[OF w] same_thresholds_def historySize_def)
  qed
next
  from record_all_walk[OF wf_init_globals, of ss]
  show "\<exists>g''. record_all ss init_globals = Inr g'' \<and> 0 \<le> nextIndex g'' \<and> nextIndex g'' < 100"
    by (auto simp: wf_def historySize_def)
qed

theorem collectSample_records_witness:
  "wf one_slow \<and>
   (\<exists>g'. collectSample quick_sample one_slow = Inr (quick_sample, g') \<and>
        samples g' ! nat (nextIndex one_slow) = quick_sample \<and>
        (\<forall>i. i \<noteq> nat (nextIndex one_slow) \<longrightarrow> samples g' ! i = samples one_slow ! i) \<and>
        length (samples g') = length (samples one_slow) \<and>
        nextIndex g' = 2 \<and> same_thresholds g' one_slow)"
proof -
  have w: "wf one_slow"
    by (simp add: wf_def one_slow_def init_globals_def historySize_def)
  have n: "nextIndex one_slow = 1" by (simp add: one_slow_def)
  show ?thesis
    using w collectSample_records [of one_slow quick_sample "[]"] by (auto simp: n)
qed

section \<open>Rendering walks the buffer backward\<close>

text \<open>
  C7. In every buffer state, Samples writes the header and then one row for each slot of
  the backward walk that starts at the slot written last (the one just before the
  cursor, wrapping from 0 to 99), in that order, up to the first slot whose start time
  is zero.  So after at most 100 samples with non-zero start times have been recorded
  into the initial buffer, the rows are those of exactly the recorded samples, newest
  first.
\<close>

theorem Samples_walks_backward:
  "(wf g \<longrightarrow>
      SamplesBuf F g now =
        Inr ((header @ newline) #
             map (row F g now) (takeWhile (\<lambda>s. \<not> IsZero (start s)) (walk g))) \<and>
      length (walk g) = 100 \<and>
      (\<forall>j<100. walk g ! j = samples g ! nat ((nextIndex g - 1 - int j) mod 100))) \<and>
   (length ss \<le> 100 \<and> (\<forall>s\<in>set ss. \<not> IsZero (start s)) \<longrightarrow>
      (\<exists>g'. record_all ss init_globals = Inr g' \<and>
         SamplesBuf F g' now = Inr ((header @ newline) # map (row F g' now) (rev ss))))"
proof (intro conjI impI)
  assume "wf g"
  then show "SamplesBuf F g now =
        Inr ((header @ newline) #
             map (row F g now) (takeWhile (\<lambda>s. \<not> IsZero (start s)) (walk g)))"
    by (rule SamplesBuf_walk)
next
  show "length (walk g) = 100" by (rule length_walk)
next
  show "\<forall>j<100. walk g ! j = samples g ! nat ((nextIndex g - 1 - int j) mod 100)"
    by (simp add: walk_nth)
next
  assume a: "length ss \<le> 100 \<and> (\<forall>s\<in>set ss. \<not> IsZero (start s))"
  have i: "with_thresholds init_globals 10000 10000 10000 100000 = init_globals"
    by (simp add: with_thresholds_def init_globals_def)
  from record_all_init_rendered[of ss 10000 10000 10000 100000 ] obtain g' where
    g': "record_all ss init_globals = Inr g'" "wf g'"
        "takeWhile (\<lambda>s. \<not> IsZero (start s)) (walk g')
           = takeWhile (\<lambda>s. \<not> IsZero (start s)) (take 100 (rev ss))"
    unfolding i by blast
  have "takeWhile (\<lambda>s. \<not> IsZero (start s)) (take 100 (rev ss)) = rev ss"
    using a by simp
  with g' show "\<exists>g'. record_all ss init_globals = Inr g' \<and>
         SamplesBuf F g' now = Inr ((header @ newline) # map (row F g' now) (rev ss))"
    by (simp add: SamplesBuf_walk)
qed

theorem Samples_walks_backward_witness:
  "wf one_slow \<and> length [slow_sample, quick_sample] \<le> 100 \<and>
   \<not> IsZero (start slow_sample) \<and> \<not> IsZero (start quick_sample) \<and>
   SamplesBuf plain_formatting one_slow 9 =
     Inr ((header @ newline) #
          map (row plain_formatting one_slow 9)
            (takeWhile (\<lambda>s. \<not> IsZero (start s)) (walk one_slow))) \<and>
   walk one_slow ! 0 = slow_sample \<and>
   (\<exists>g'. record_all [slow_sample, quick_sample] init_globals = Inr g' \<and>
      SamplesBuf plain_formatting g' 9 =
        Inr [header @ newline, row plain_formatting g' 9 quick_sample,
             row plain_formatting g' 9 slow_sample])"
proof -
  have h: "length [slow_sample, quick_sample] \<le> 100 \<and>
      (\<forall>s\<in>set [slow_sample, quick_sample]. \<not> IsZero (start s))"
    by (simp add: IsZero_def slow_sample_def quick_sample_def)
  have s0: "samples one_slow ! nat ((nextIndex one_slow - 1 - int 0) mod 100) = slow_sample"
    by (simp add: one_slow_def init_globals_def historySize_def)
  show ?thesis
    using wf_one_slow h s0
      Samples_walks_backward [of one_slow plain_formatting 9 "[slow_sample, quick_sample]"]
    by simp
qed

section \<open>The number of rows\<close>

text \<open>
  C5. After any sequence of samples with non-zero start times has been recorded into
  the initially empty buffer (whatever the thresholds), a render emits at most
  min(number of samples recorded, 100) data rows.
\<close>

theorem render_rows_bounded:
  assumes "\<forall>s\<in>set ss. \<not> IsZero (start s)"
  shows "\<exists>g rows. record_all ss (with_thresholds init_globals a b c d) = Inr g \<and>
           SamplesBuf F g now = Inr ((header @ newline) # rows) \<and>
           length rows \<le> min (length ss) 100"
proof -
  from record_all_init_rendered[of ss a b c d] obtain g where
    g: "record_all ss (with_thresholds init_globals a b c d) = Inr g" "wf g"
        "takeWhile (\<lambda>s. \<not> IsZero (start s)) (walk g)
           = takeWhile (\<lambda>s. \<not> IsZero (start s)) (take 100 (rev ss))"
    by blast
  let ?rows = "map (row F g now) (takeWhile (\<lambda>s. \<not> IsZero (start s)) (take 100 (rev ss)))"
  have "length ?rows = length (takeWhile (\<lambda>s. \<not> IsZero (start s)) (take 100 (rev ss)))"
    by simp
  also have "\<dots> \<le> length (take 100 (rev ss))"
    by (rule length_takeWhile_le)
  also have "\<dots> = min (length ss) 100"
    by simp
  finally have "length ?rows \<le> min (length ss) 100" .
  moreover have "SamplesBuf F g now = Inr ((header @ newline) # ?rows)"
    by (simp add: SamplesBuf_walk[OF g(2)] g(3))
  ultimately show ?thesis using g(1) by blast
qed

theorem render_rows_bounded_witness:
  "\<not> IsZero (start slow_sample) \<and> \<not> IsZero (start quick_sample) \<and>
   (\<exists>g rows. record_all [slow_sample, quick_sample] (with_thresholds init_globals 1 2 3 4) = Inr g \<and>
      SamplesBuf plain_formatting g 9 = Inr ((header @ newline) # rows) \<and>
      length rows \<le> min (length [slow_sample, quick_sample]) 100)"
proof -
  have h: "\<forall>s\<in>set [slow_sample, quick_sample]. \<not> IsZero (start s)"
    by (simp add: IsZero_def slow_sample_def quick_sample_def)
  show ?thesis
    by (intro conjI render_rows_bounded [OF h])
       (simp_all add: IsZero_def slow_sample_def quick_sample_def)
qed

section \<open>Wraparound\<close>

text \<open>
  C6. After 100 + k samples (k at least 1) have been recorded, the slots of the buffer
  hold the last 100 samples of the sequence, the newest just before the cursor; the
  first k samples are in no slot (when the samples are pairwise different, no slot even
  equals one of them), and a render writes rows for the last 100 samples only, newest
  first, all of them when their start times are non-zero.
\<close>

theorem oldest_samples_overwritten:
  assumes "wf g0" "length ss = 100 + k" "1 \<le> k"
  shows "\<exists>g. record_all ss g0 = Inr g \<and>
           walk g = rev (drop k ss) \<and>
           set (samples g) = set (drop k ss) \<and>
           (distinct ss \<longrightarrow> set (take k ss) \<inter> set (samples g) = {}) \<and>
           SamplesBuf F g now =
             Inr ((header @ newline) #
                  map (row F g now) (takeWhile (\<lambda>s. \<not> IsZero (start s)) (rev (drop k ss)))) \<and>
           ((\<forall>s\<in>set ss. \<not> IsZero (start s)) \<longrightarrow>
              SamplesBuf F g now = Inr ((header @ newline) # map (row F g now) (rev (drop k ss))))"
proof -
  from record_all_walk[OF assms(1), of ss] obtain g where
    g: "record_all ss g0 = Inr g" "wf g" "walk g = take 100 (rev ss @ walk g0)"
    by blast
  have "take 100 (rev ss @ walk g0) = take 100 (rev ss)"
    using assms(2) by simp
  also have "\<dots> = rev (drop k ss)"
    using assms(2) by (simp add: take_rev)
  finally have wk: "walk g = rev (drop k ss)"
    using g(3) by simp
  have st: "set (samples g) = set (drop k ss)"
    using set_walk[OF g(2)] wk by simp
  have dj: "distinct ss \<longrightarrow> set (take k ss) \<inter> set (samples g) = {}"
  proof
    assume "distinct ss"
    then have "distinct (take k ss @ drop k ss)" by simp
    then show "set (take k ss) \<inter> set (samples g) = {}"
      unfolding st distinct_append by blast
  qed
  have sb: "SamplesBuf F g now =
             Inr ((header @ newline) #
                  map (row F g now) (takeWhile (\<lambda>s. \<not> IsZero (start s)) (rev (drop k ss))))"
    by (simp add: SamplesBuf_walk[OF g(2)] wk)
  have nz: "(\<forall>s\<in>set ss. \<not> IsZero (start s)) \<longrightarrow>
              SamplesBuf F g now = Inr ((header @ newline) # map (row F g now) (rev (drop k ss)))"
  proof
    assume "\<forall>s\<in>set ss. \<not> IsZero (start s)"
    then have "\<forall>s\<in>set (rev (drop k ss)). \<not> IsZero (start s)"
      by (auto dest: in_set_dropD)
    then have "takeWhile (\<lambda>s. \<not> IsZero (start s)) (rev (drop k ss)) = rev (drop k ss)"
      by simp
    with sb show "SamplesBuf F g now = Inr ((header @ newline) # map (row F g now) (rev (drop k ss)))"
      by simp
  qed
  from g(1) wk st dj sb nz show ?thesis by blast
qed

theorem oldest_samples_overwritten_witness:
  "wf one_slow \<and> length (numbered_samples 102) = 100 + 2 \<and> (1::nat) \<le> 2 \<and>
   (\<exists>g. record_all (numbered_samples 102) one_slow = Inr g \<and>
           walk g = rev (drop 2 (numbered_samples 102)) \<and>
           set (samples g) = set (drop 2 (numbered_samples 102)) \<and>
           (distinct (numbered_samples 102) \<longrightarrow>
              set (take 2 (numbered_samples 102)) \<inter> set (samples g) = {}) \<and>
           SamplesBuf plain_formatting g 200 =
             Inr ((header @ newline) #
                  map (row plain_formatting g 200)
                    (takeWhile (\<lambda>s. \<not> IsZero (start s)) (rev (drop 2 (numbered_samples 102))))) \<and>
           ((\<forall>s\<in>set (numbered_samples 102). \<not> IsZero (start s)) \<longrightarrow>
              SamplesBuf plain_formatting g 200 =
                Inr ((header @ newline) #
                     map (row plain_formatting g 200) (rev (drop 2 (numbered_samples 102))))))"
proof -
  have l: "length (numbered_samples 102) = 100 + 2"
    by (simp add: numbered_samples_def)
  have k: "(1::nat) \<le> 2" by simp
  show ?thesis
    by (intro conjI wf_one_slow l k oldest_samples_overwritten [OF wf_one_slow l k])
qed

section \<open>What Samples highlights\<close>

text \<open>
  C1, as the specification states it (the table returned by Samples has no highlighted
  row, whatever the samples and thresholds), fails: after one tick that measured
  \<open>slow_sample\<close> (oversleep 20us) under the initial thresholds, Samples writes the
  header and one data row, and that row ends with the marker, whatever the formatting
  of its cells and whatever the clock reading; with \<open>plain_formatting\<close> the text is
  written out.
\<close>

theorem Samples_highlights_counterexample:
  "collectSample slow_sample init_globals = Inr (slow_sample, one_slow) \<and>
   (\<forall>F now.
      SamplesBuf F one_slow now = Inr [header @ newline, row F one_slow now slow_sample] \<and>
      Samples F one_slow now = Inr (header @ newline @ row F one_slow now slow_sample) \<and>
      marked (row F one_slow now slow_sample) \<and>
      suffix ('' <---'' @ [CHR 0x0A]) (row F one_slow now slow_sample)) \<and>
   SamplesBuf plain_formatting one_slow 9 =
     Inr [header @ newline,
          ''|   1.0s ago |        1ms |        1ms |        1ms |        1ms | <---'' @ newline] \<and>
   marked (''|   1.0s ago |        1ms |        1ms |        1ms |        1ms | <---'' @ newline) \<and>
   Samples plain_formatting one_slow 9 =
     Inr (header @ newline @
          ''|   1.0s ago |        1ms |        1ms |        1ms |        1ms | <---'' @ newline)"
proof (intro conjI allI)
  show "collectSample slow_sample init_globals = Inr (slow_sample, one_slow)"
    by (rule collectSample_one_slow)
next
  fix F now
  show "SamplesBuf F one_slow now = Inr [header @ newline, row F one_slow now slow_sample]"
    by (simp add: SamplesBuf_walk[OF wf_one_slow] rendered_one_slow)
  show "Samples F one_slow now = Inr (header @ newline @ row F one_slow now slow_sample)"
    by (simp add: Samples_wf[OF wf_one_slow] rendered_one_slow)
  show m: "marked (row F one_slow now slow_sample)"
    by (simp add: marked_row overThreshold_one_slow)
  from m show "suffix ('' <---'' @ [CHR 0x0A]) (row F one_slow now slow_sample)"
    by (simp add: marked_def marker_def newline_def)
next
  show "SamplesBuf plain_formatting one_slow 9 =
     Inr [header @ newline,
          ''|   1.0s ago |        1ms |        1ms |        1ms |        1ms | <---'' @ newline]"
    by code_simp
  show "marked (''|   1.0s ago |        1ms |        1ms |        1ms |        1ms | <---'' @ newline)"
    by code_simp
  show "Samples plain_formatting one_slow 9 =
     Inr (header @ newline @
          ''|   1.0s ago |        1ms |        1ms |        1ms |        1ms | <---'' @ newline)"
    by code_simp
qed

text \<open>
  C1, amended.  In every buffer state Samples returns the table of the current buffer
  contents: the header, which carries no marker, and one row for each slot of the
  backward walk from the slot before the cursor up to the first slot with a zero start
  time.  The row of a sample carries the over-threshold marker exactly when that sample
  exceeds the current thresholds; so no row of the output carries the marker exactly
  when no rendered sample is over the current thresholds.
\<close>

theorem Samples_marks_only_over_threshold:
  assumes "wf g"
  shows "SamplesBuf F g now =
           Inr ((header @ newline) #
                map (row F g now) (takeWhile (\<lambda>s. \<not> IsZero (start s)) (walk g))) \<and>
         Samples F g now =
           Inr (concat ((header @ newline) #
                map (row F g now) (takeWhile (\<lambda>s. \<not> IsZero (start s)) (walk g)))) \<and>
         length (walk g) = 100 \<and>
         (\<forall>j<100. walk g ! j = samples g ! nat ((nextIndex g - 1 - int j) mod 100)) \<and>
         set (takeWhile (\<lambda>s. \<not> IsZero (start s)) (walk g)) \<subseteq> set (samples g) \<and>
         \<not> marked (header @ newline) \<and>
         (\<forall>s\<in>set (takeWhile (\<lambda>s. \<not> IsZero (start s)) (walk g)).
            marked (row F g now s) \<longleftrightarrow> overThreshold g s) \<and>
         map marked (map (row F g now) (takeWhile (\<lambda>s. \<not> IsZero (start s)) (walk g)))
           = map (overThreshold g) (takeWhile (\<lambda>s. \<not> IsZero (start s)) (walk g)) \<and>
         ((\<forall>r\<in>set ((header @ newline) #
                     map (row F g now) (takeWhile (\<lambda>s. \<not> IsZero (start s)) (walk g))).
              \<not> marked r) \<longleftrightarrow>
          (\<forall>s\<in>set (takeWhile (\<lambda>s. \<not> IsZero (start s)) (walk g)). \<not> overThreshold g s))"
proof (intro conjI)
  let ?rs = "takeWhile (\<lambda>s. \<not> IsZero (start s)) (walk g)"
  show "SamplesBuf F g now = Inr ((header @ newline) # map (row F g now) ?rs)"
    by (rule SamplesBuf_walk[OF assms])
  show "Samples F g now = Inr (concat ((header @ newline) # map (row F g now) ?rs))"
    by (rule Samples_wf[OF assms])
  show "length (walk g) = 100" by (rule length_walk)
  show "\<forall>j<100. walk g ! j = samples g ! nat ((nextIndex g - 1 - int j) mod 100)"
    by (simp add: walk_nth)
  show "set ?rs \<subseteq> set (samples g)" by (rule rendered_subset[OF assms])
  show "\<not> marked (header @ newline)" by (rule not_marked_header)
  show "\<forall>s\<in>set ?rs. marked (row F g now s) \<longleftrightarrow> overThreshold g s"
    by (simp add: marked_row)
  show "map marked (map (row F g now) ?rs) = map (overThreshold g) ?rs"
    by (simp add: marked_row comp_def)
  show "(\<forall>r\<in>set ((header @ newline) # map (row F g now) ?rs). \<not> marked r) \<longleftrightarrow>
          (\<forall>s\<in>set ?rs. \<not> overThreshold g s)"
    by (simp add: not_marked_header marked_row)
qed

theorem Samples_marks_only_over_threshold_witness:
  "wf one_quick \<and> wf one_slow \<and>
   SamplesBuf plain_formatting one_quick 9 =
     Inr [header @ newline, row plain_formatting one_quick 9 quick_sample] \<and>
   \<not> marked (row plain_formatting one_quick 9 quick_sample) \<and>
   SamplesBuf plain_formatting one_slow 9 =
     Inr [header @ newline, row plain_formatting one_slow 9 slow_sample] \<and>
   marked (row plain_formatting one_slow 9 slow_sample)"
proof -
  note q = Samples_marks_only_over_threshold [OF wf_one_quick, of plain_formatting 9]
  note s = Samples_marks_only_over_threshold [OF wf_one_slow, of plain_formatting 9]
  have q1: "SamplesBuf plain_formatting one_quick 9 =
     Inr [header @ newline, row plain_formatting one_quick 9 quick_sample]"
    using q by (simp add: rendered_one_quick)
  have q2: "\<not> marked (row plain_formatting one_quick 9 quick_sample)"
    using q not_overThreshold_one_quick by (simp add: rendered_one_quick)
  have s1: "SamplesBuf plain_formatting one_slow 9 =
     Inr [header @ newline, row plain_formatting one_slow 9 slow_sample]"
    using s by (simp add: rendered_one_slow)
  have s2: "marked (row plain_formatting one_slow 9 slow_sample)"
    using s overThreshold_one_slow by (simp add: rendered_one_slow)
  show ?thesis
    by (intro conjI wf_one_quick wf_one_slow q1 q2 s1 s2)
qed

section \<open>The marker follows the thresholds at render time\<close>

text \<open>
  C9. Whatever state the samples were recorded in, when the thresholds are a, b, c, d at
  the time of the render, the row written for a sample ends with the marker exactly
  when the sample exceeds one of a, b, c, d in its own field: the thresholds in force
  when the sample was recorded play no part.
\<close>

theorem marker_follows_render_time_thresholds:
  assumes "wf g"
  shows "SamplesBuf F (with_thresholds g a b c d) now =
           Inr ((header @ newline) #
                map (row F (with_thresholds g a b c d) now)
                  (takeWhile (\<lambda>s. \<not> IsZero (start s)) (walk g))) \<and>
         (\<forall>s. marked (row F (with_thresholds g a b c d) now s) \<longleftrightarrow>
                a <s oversleep s \<or> b <s bufSend s \<or> c <s pingPong s \<or> d <s chain s)"
proof
  have "wf (with_thresholds g a b c d)" using assms by (simp add: wf_with_thresholds)
  from SamplesBuf_walk[OF this]
  show "SamplesBuf F (with_thresholds g a b c d) now =
           Inr ((header @ newline) #
                map (row F (with_thresholds g a b c d) now)
                  (takeWhile (\<lambda>s. \<not> IsZero (start s)) (walk g)))"
    by (simp add: walk_with_thresholds)
next
  show "\<forall>s. marked (row F (with_thresholds g a b c d) now s) \<longleftrightarrow>
                a <s oversleep s \<or> b <s bufSend s \<or> c <s pingPong s \<or> d <s chain s"
    by (simp add: marked_row overThreshold_with_thresholds)
qed

theorem marker_follows_render_time_thresholds_witness:
  "collectSample quick_sample init_globals = Inr (quick_sample, one_quick) \<and>
   collectSample slow_sample init_globals = Inr (slow_sample, one_slow) \<and>
   wf one_quick \<and> \<not> overThreshold one_quick quick_sample \<and>
   marked (row plain_formatting (with_thresholds one_quick 9999 10000 10000 100000) 9 quick_sample) \<and>
   wf one_slow \<and> overThreshold one_slow slow_sample \<and>
   \<not> marked (row plain_formatting (with_thresholds one_slow 20000 10000 10000 100000) 9 slow_sample)"
proof -
  have q: "marked (row plain_formatting (with_thresholds one_quick 9999 10000 10000 100000) 9 quick_sample)"
    using marker_follows_render_time_thresholds
      [OF wf_one_quick, of plain_formatting 9999 10000 10000 100000 9,
       THEN conjunct2, THEN spec, of quick_sample]
    by (simp add: quick_sample_def)
  have s: "\<not> marked (row plain_formatting (with_thresholds one_slow 20000 10000 10000 100000) 9 slow_sample)"
    using marker_follows_render_time_thresholds
      [OF wf_one_slow, of plain_formatting 20000 10000 10000 100000 9,
       THEN conjunct2, THEN spec, of slow_sample]
    by (simp add: slow_sample_def word_sless_alt)
  have oq: "\<not> overThreshold one_quick quick_sample"
    by (simp add: overThreshold_def one_quick_def init_globals_def quick_sample_def)
  have os: "overThreshold one_slow slow_sample"
    by (simp add: overThreshold_def one_slow_def init_globals_def slow_sample_def)
  have cq: "collectSample quick_sample init_globals = Inr (quick_sample, one_quick)"
    by code_simp
  have cs: "collectSample slow_sample init_globals = Inr (slow_sample, one_slow)"
    by code_simp
  show ?thesis
    by (intro conjI wf_one_quick wf_one_slow q s oq os cq cs)
qed

section \<open>The bad flag\<close>

text \<open>
  C3. After any sequence of ticks, checks and threshold assignments from the initial
  state, the loop has not panicked and its bad flag is set exactly when some sample
  recorded since the last Check (since the start, if there was none) was over threshold
  when it was recorded.
\<close>

theorem bad_flag_tracks_samples_since_check:
  "\<exists>L out. run F init_loop evs = Inr (L, out) \<and> (bad L \<longleftrightarrow> bad_spec init_globals evs)"
  using run_init[of F evs] by blast

theorem bad_flag_tracks_samples_since_check_witness:
  "bad_spec init_globals [Tick slow_sample, CheckEv (0::nat) 9, Tick quick_sample,
      SetThresholds 1 1 1 1, Tick quick_sample] \<and>
   \<not> bad_spec init_globals [Tick slow_sample, CheckEv (0::nat) 9, Tick quick_sample] \<and>
   (\<exists>L out. run plain_formatting init_loop
        [Tick slow_sample, CheckEv (0::nat) 9, Tick quick_sample,
         SetThresholds 1 1 1 1, Tick quick_sample] = Inr (L, out) \<and> bad L) \<and>
   (\<exists>L out. run plain_formatting init_loop
        [Tick slow_sample, CheckEv (0::nat) 9, Tick quick_sample] = Inr (L, out) \<and> \<not> bad L)"
proof -
  have a: "bad_spec init_globals [Tick slow_sample, CheckEv (0::nat) 9, Tick quick_sample,
      SetThresholds 1 1 1 1, Tick quick_sample]"
    by code_simp
  have b: "\<not> bad_spec init_globals [Tick slow_sample, CheckEv (0::nat) 9, Tick quick_sample]"
    by code_simp
  show ?thesis
    using a b
      bad_flag_tracks_samples_since_check [of plain_formatting
        "[Tick slow_sample, CheckEv (0::nat) 9, Tick quick_sample,
          SetThresholds 1 1 1 1, Tick quick_sample]"]
      bad_flag_tracks_samples_since_check [of plain_formatting
        "[Tick slow_sample, CheckEv (0::nat) 9, Tick quick_sample]"]
    by blast
qed

section \<open>Check warns at most once\<close>

text \<open>
  C2. In every state the loop reaches, a Check delivers at most one warning, to the
  Warner it was given; it delivers one exactly when the bad flag is set, that is when a
  sample since the previous Check (or the start) exceeded a threshold; the flag is clear
  afterwards, and a second Check delivers nothing, right after it or after any events
  that record no sample.
\<close>

theorem Check_warns_at_most_once:
  assumes "run F init_loop evs = Inr (L, out0)"
  shows "\<exists>L' out. step F L (CheckEv w now) = Inr (L', out) \<and>
           length out \<le> 1 \<and>
           (\<forall>m\<in>set out. fst m = w) \<and>
           (out \<noteq> [] \<longleftrightarrow> bad L) \<and>
           (bad L \<longleftrightarrow> bad_spec init_globals evs) \<and>
           \<not> bad L' \<and>
           step F L' (CheckEv w' now') = Inr (L', []) \<and>
           (\<forall>mid. (\<forall>e\<in>set mid. \<not> is_tick e) \<longrightarrow>
              (\<exists>L''. run F L' (mid @ [CheckEv w' now']) = Inr (L'', [])))"
proof -
  from run_init[of F evs] assms have w: "wf (glob L)" and b: "bad L \<longleftrightarrow> bad_spec init_globals evs"
    by auto
  have q: "\<exists>L''. run F L1 (mid @ [CheckEv w' now']) = Inr (L'', [])"
    if "wf (glob L1)" "\<not> bad L1" "\<forall>e\<in>set mid. \<not> is_tick e" for L1 mid
  proof -
    from that(3) have "\<forall>e\<in>set (mid @ [CheckEv w' now']). \<not> is_tick e" by simp
    from run_no_tick_quiet[OF that(1,2) this, of F] show ?thesis by blast
  qed
  have quiet: "\<forall>mid. (\<forall>e\<in>set mid. \<not> is_tick e) \<longrightarrow>
              (\<exists>L''. run F L1 (mid @ [CheckEv w' now']) = Inr (L'', []))"
    if "wf (glob L1)" "\<not> bad L1" for L1
    using q[OF that] by blast
  show ?thesis
  proof (cases "bad L")
    case True
    let ?L' = "L\<lparr>bad := False\<rparr>"
    let ?out = "[(w, warning_text (concat ((header @ newline) #
        map (row F (glob L) now) (takeWhile (\<lambda>s. \<not> IsZero (start s)) (walk (glob L))))))]"
    have "step F L (CheckEv w now) = Inr (?L', ?out)"
      using True by (simp add: Samples_wf[OF w])
    moreover have "step F ?L' (CheckEv w' now') = Inr (?L', [])" by simp
    moreover have "wf (glob ?L')" "\<not> bad ?L'" using w by simp_all
    note quiet[OF this]
    ultimately show ?thesis using True b
      by (intro exI[of _ ?L'] exI[of _ ?out]) simp
  next
    case False
    then have "step F L (CheckEv w now) = Inr (L, [])" by simp
    moreover have "step F L (CheckEv w' now') = Inr (L, [])" using False by simp
    moreover note quiet[OF w False]
    ultimately show ?thesis using False b
      by (intro exI[of _ L] exI[of _ "[]"]) simp
  qed
qed

theorem Check_warns_at_most_once_witness:
  "run plain_formatting init_loop [Tick slow_sample] = Inr (\<lparr>glob = one_slow, bad = True\<rparr>, ([] :: (nat \<times> string) list)) \<and>
   (\<exists>L' out. step plain_formatting \<lparr>glob = one_slow, bad = True\<rparr> (CheckEv (3::nat) 9) = Inr (L', out) \<and>
           length out \<le> 1 \<and>
           (\<forall>m\<in>set out. fst m = 3) \<and>
           (out \<noteq> [] \<longleftrightarrow> bad \<lparr>glob = one_slow, bad = True\<rparr>) \<and>
           (bad \<lparr>glob = one_slow, bad = True\<rparr> \<longleftrightarrow> bad_spec init_globals [Tick slow_sample :: nat event]) \<and>
           \<not> bad L' \<and>
           step plain_formatting L' (CheckEv (4::nat) 10) = Inr (L', []) \<and>
           (\<forall>mid. (\<forall>e\<in>set mid. \<not> is_tick e) \<longrightarrow>
              (\<exists>L''. run plain_formatting L' (mid @ [CheckEv (4::nat) 10]) = Inr (L'', []))))"
proof -
  have r: "run plain_formatting init_loop [Tick slow_sample] =
      Inr (\<lparr>glob = one_slow, bad = True\<rparr>, ([] :: (nat \<times> string) list))"
    by code_simp
  show ?thesis
    by (rule conjI [OF r Check_warns_at_most_once [OF r]])
qed

end
